theory Spec2Isabelle
  imports Main
begin

section \<open>Constants (src/src/App.tsx, lines 10-33)\<close>

definition MAX_FILES :: nat where
  "MAX_FILES = 50"

definition DEBOUNCE_MS :: int where
  "DEBOUNCE_MS = 300"

definition MAX_RECENT_UPLOADS :: nat where
  "MAX_RECENT_UPLOADS = 10"

definition ALLOWED_EXTENSIONS :: "string list" where
  "ALLOWED_EXTENSIONS =
    [''jpg'', ''jpeg'', ''png'', ''gif'', ''bmp'', ''tiff'', ''tif'', ''webp'', ''heic'',
     ''heif'', ''svg'', ''ico'', ''raw'', ''cr2'', ''nef'', ''arw'',
     ''pdf'', ''doc'', ''docx'', ''xls'', ''xlsx'', ''ppt'', ''pptx'', ''txt'', ''rtf'',
     ''csv'', ''md'', ''markdown'', ''pages'', ''numbers'', ''key'',
     ''zip'', ''tar'', ''gz'', ''7z'', ''rar'', ''bz2'', ''xz'', ''tgz'',
     ''mov'', ''mp4'', ''avi'', ''mkv'', ''webm'', ''m4v'', ''wmv'', ''flv'', ''3gp'',
     ''mp3'', ''wav'', ''aac'', ''flac'', ''m4a'', ''ogg'', ''wma'', ''aiff'',
     ''json'', ''xml'', ''html'', ''css'', ''js'', ''ts'', ''jsx'', ''tsx'', ''py'', ''rs'',
     ''go'', ''swift'', ''java'', ''c'', ''cpp'', ''h'', ''rb'', ''php'', ''sh'', ''bash'',
     ''zsh'', ''yaml'', ''yml'', ''toml'', ''ini'', ''sql'', ''graphql'',
     ''dmg'', ''pkg'', ''app'', ''ipa'',
     ''ttf'', ''otf'', ''woff'', ''woff2'', ''eot'',
     ''log'', ''env'', ''gitignore'', ''dockerfile'']"

section \<open>String helpers of the JavaScript runtime\<close>

text \<open>
  Paths are modelled as \<^typ>\<open>string\<close>, one \<^typ>\<open>char\<close> per character of the path.
  \<open>toLowerCase\<close> maps the letters A to Z to a to z and leaves every other character
  of the model alone.
\<close>

definition lower_char :: "char \<Rightarrow> char" where
  "lower_char c =
     (let n = (of_char c :: nat) in if 65 \<le> n \<and> n \<le> 90 then char_of (n + 32) else c)"

definition toLowerCase :: "string \<Rightarrow> string" where
  "toLowerCase s = map lower_char s"

text \<open>
  \<open>s.split(sep)\<close> for a separator of one character: the pieces between the separators,
  never an empty array (\<open>"".split(".")\<close> is \<open>[""]\<close>).
\<close>

fun split :: "char \<Rightarrow> string \<Rightarrow> string list" where
  "split sep [] = [[]]"
| "split sep (c # cs) =
     (if c = sep then [] # split sep cs
      else (case split sep cs of [] \<Rightarrow> [[c]] | p # ps \<Rightarrow> (c # p) # ps))"

text \<open>\<open>Number.prototype.toString\<close> on an integer: its decimal digits.\<close>

fun digits :: "nat \<Rightarrow> string" where
  "digits n = (if n < 10 then [char_of (48 + n)] else digits (n div 10) @ [char_of (48 + n mod 10)])"

definition toString :: "int \<Rightarrow> string" where
  "toString i = (if i < 0 then CHR ''-'' # digits (nat (- i)) else digits (nat i))"

section \<open>Utility functions (lines 91-115)\<close>

text \<open>
  \<open>getExtension\<close>: \<open>parts = path.split(".")\<close>; the last part, lower-cased, when there is
  more than one part, the empty string otherwise.
\<close>

definition getExtension :: "string \<Rightarrow> string" where
  "getExtension path =
     (let parts = split CHR ''.'' path
      in if length parts > 1 then toLowerCase (last parts) else [])"

text \<open>\<open>getFileName\<close>: \<open>path.split("/").pop() || path\<close>; the empty string is falsy.\<close>

definition getFileName :: "string \<Rightarrow> string" where
  "getFileName path =
     (let p = last (split CHR ''/'' path) in if p \<noteq> [] then p else path)"

record validation =
  valid :: bool
  error :: "string option"

text \<open>The \<open>for\<close> loop of \<open>validateFiles\<close>, returning at the first offending path.\<close>

fun check_extensions :: "string list \<Rightarrow> validation" where
  "check_extensions [] = \<lparr>valid = True, error = None\<rparr>"
| "check_extensions (path # rest) =
     (let ext = getExtension path
      in if ext \<noteq> [] \<and> ext \<notin> set ALLOWED_EXTENSIONS
         then (let fileName = getFileName path
               in \<lparr>valid = False,
                   error = Some (''Unsupported file type: .'' @ ext @ '' ('' @ fileName @ '')'')\<rparr>)
         else check_extensions rest)"

definition validateFiles :: "string list \<Rightarrow> validation" where
  "validateFiles paths =
     (if length paths = 0 then \<lparr>valid = False, error = Some ''No files provided''\<rparr>
      else if length paths > MAX_FILES
      then \<lparr>valid = False,
            error = Some (''Too many files. Maximum is '' @ toString (int MAX_FILES) @ ''.'')\<rparr>
      else check_extensions paths)"

text \<open>
  The validator as section 4.1 of the specification words it. The extension of a path is
  the substring after its final dot, lower-cased; a path with no dot has none.
\<close>

definition after_final_dot :: "string \<Rightarrow> string" where
  "after_final_dot path = rev (takeWhile (\<lambda>c. c \<noteq> CHR ''.'') (rev path))"

definition spec_extension :: "string \<Rightarrow> string option" where
  "spec_extension path =
     (if CHR ''.'' \<in> set path then Some (toLowerCase (after_final_dot path)) else None)"

definition offending :: "string \<Rightarrow> bool" where
  "offending path =
     (case spec_extension path of
        None \<Rightarrow> False
      | Some ext \<Rightarrow> ext \<noteq> [] \<and> ext \<notin> set ALLOWED_EXTENSIONS)"

datatype ValidationError = EmptyBatch | TooManyFiles nat | UnsupportedType string string

fun message :: "ValidationError \<Rightarrow> string" where
  "message EmptyBatch = ''No files provided''"
| "message (TooManyFiles m) = ''Too many files. Maximum is '' @ toString (int m) @ ''.''"
| "message (UnsupportedType ext fileName) =
     ''Unsupported file type: .'' @ ext @ '' ('' @ fileName @ '')''"

definition spec_validate :: "string list \<Rightarrow> ValidationError option" where
  "spec_validate paths =
     (if paths = [] then Some EmptyBatch
      else if length paths > 50 then Some (TooManyFiles 50)
      else (case find offending paths of
              Some path \<Rightarrow>
                map_option (\<lambda>ext. UnsupportedType ext (getFileName path)) (spec_extension path)
            | None \<Rightarrow> None))"

definition failed :: "ValidationError \<Rightarrow> validation" where
  "failed e = \<lparr>valid = False, error = Some (message e)\<rparr>"

definition passed :: validation where
  "passed = \<lparr>valid = True, error = None\<rparr>"

section \<open>Types (lines 38-78)\<close>

datatype AppState = Idle | Drag_over | Processing | Success | Error

text \<open>
  \<open>UploadItem\<close>; the fields \<open>id\<close> and \<open>size\<close> are \<open>id_str\<close> and \<open>size_str\<close> here, and an
  optional field is an \<^typ>\<open>string option\<close>.
\<close>

record UploadItem =
  id_str :: string
  name :: string
  size_str :: string
  url :: string
  localPath :: "string option"
  r2Key :: "string option"
  isDemo :: bool
  timestamp :: int

text \<open>\<open>DropResult\<close>, what \<open>process_and_upload\<close> resolves to; \<open>null\<close> is \<^const>\<open>None\<close>.\<close>

record DropResult =
  result_url :: string
  local_path :: "string option"
  r2_key :: "string option"
  original_size :: nat
  processed_size :: nat
  file_type :: string
  is_demo :: bool

section \<open>The environment of the component\<close>

text \<open>
  The \<open>zipdrop_uploads\<close> slot of \<open>localStorage\<close>, by what the component makes of the string
  it holds: the empty string (falsy), a string that \<open>JSON.parse\<close> rejects, or the encoding of
  a list of records, which \<open>JSON.parse\<close> decodes and \<open>JSON.stringify\<close> writes. An absent key
  (\<open>getItem\<close> returns \<open>null\<close>) is \<^const>\<open>None\<close>.
\<close>

datatype persisted = Empty_string | Invalid_JSON | Encoded "UploadItem list"

text \<open>The callbacks given to \<open>setTimeout\<close>, by what they do.\<close>

datatype timer = Reset_status | Reset_all | Hide_window

text \<open>
  The state of \<open>App\<close>: its \<open>useState\<close> cells and the two refs, then the environment the
  claims speak of: the persisted slot, the \<open>process_and_upload\<close> invocations that have not
  settled yet (each with the \<open>paths\<close> its continuation closes over), the pending timers with
  their delays, and the keys of the \<open>delete_from_r2\<close> invocations issued so far.
\<close>

record App =
  state :: AppState
  statusText :: string
  uploads :: "UploadItem list"
  currentFileName :: string
  lastDropTime :: int
  isProcessing :: bool
  storage :: "persisted option"
  inflight :: "string list list"
  timers :: "(nat \<times> timer) list"
  r2_deletes :: "string list"

section \<open>Mounting (lines 121-155)\<close>

definition initial :: "persisted option \<Rightarrow> App" where
  "initial saved =
     \<lparr>state = Idle, statusText = [], uploads = [], currentFileName = [], lastDropTime = 0,
      isProcessing = False, storage = saved, inflight = [], timers = [], r2_deletes = []\<rparr>"

text \<open>The load effect: \<open>if (saved) { try { setUploads(JSON.parse(saved)) } catch { } }\<close>.\<close>

definition load_effect :: "App \<Rightarrow> App" where
  "load_effect s =
     (case storage s of
        None \<Rightarrow> s
      | Some Empty_string \<Rightarrow> s
      | Some Invalid_JSON \<Rightarrow> s
      | Some (Encoded items) \<Rightarrow> s\<lparr>uploads := items\<rparr>)"

text \<open>The save effect, run after a render in which \<open>uploads\<close> is a new array.\<close>

definition save_effect :: "App \<Rightarrow> App" where
  "save_effect s = s\<lparr>storage := Some (Encoded (uploads s))\<rparr>"

definition mount :: "persisted option \<Rightarrow> App" where
  "mount saved = save_effect (load_effect (initial saved))"

section \<open>Processing a drop (lines 160-258)\<close>

definition schedule :: "nat \<Rightarrow> timer \<Rightarrow> App \<Rightarrow> App" where
  "schedule ms t s = s\<lparr>timers := timers s @ [(ms, t)]\<rparr>"

text \<open>
  \<open>processFiles\<close> up to its \<open>await\<close>; \<open>now\<close> is what \<open>Date.now()\<close> returns. A batch that gets
  through is recorded in \<open>inflight\<close>: the remote invocation has been issued.
\<close>

definition processFiles :: "App \<Rightarrow> int \<Rightarrow> string list \<Rightarrow> App" where
  "processFiles s now paths =
     (if now - lastDropTime s < DEBOUNCE_MS then s
      else
        let s1 = s\<lparr>lastDropTime := now\<rparr> in
        if isProcessing s1 then s1
        else if length paths = 0 then s1
        else
          let validation = validateFiles paths in
          if \<not> valid validation then
            schedule 3000 Reset_status
              (s1\<lparr>state := Error,
                  statusText := (case error validation of Some e \<Rightarrow> e | None \<Rightarrow> [])\<rparr>)
          else
            let fileNames = map getFileName paths in
            s1\<lparr>isProcessing := True,
                currentFileName := (case fileNames of f # _ \<Rightarrow> f | [] \<Rightarrow> []),
                state := Processing,
                statusText := ''Processing '' @ toString (int (length paths)) @ '' file''
                  @ (if length paths > 1 then ''s'' else []) @ ''...'',
                inflight := inflight s1 @ [paths]\<rparr>)"

text \<open>
  \<open>baseName.replace(/\.[^.]+$/, "")\<close>: the leftmost place where a dot is followed by one or
  more characters other than a dot up to the end of the string is cut off.
\<close>

fun replace_extension :: "string \<Rightarrow> string" where
  "replace_extension [] = []"
| "replace_extension (c # cs) =
     (if c = CHR ''.'' \<and> cs \<noteq> [] \<and> CHR ''.'' \<notin> set cs then []
      else c # replace_extension cs)"

text \<open>
  The display name (lines 201-208). \<open>fileNames[0]\<close> of an empty array is \<open>undefined\<close>, whose
  \<open>replace\<close> throws a TypeError into the \<open>catch\<close> block; \<^const>\<open>Inl\<close> carries the text of
  what was thrown.
\<close>

definition displayName :: "string list \<Rightarrow> string list \<Rightarrow> DropResult \<Rightarrow> string + string" where
  "displayName paths fileNames result =
     (if length paths > 1 then Inr ''archive.zip''
      else (case fileNames of
              [] \<Rightarrow> Inl ''TypeError''
            | f # _ \<Rightarrow> (let baseName = replace_extension f in Inr (baseName @ ''.'' @ file_type result))))"

text \<open>\<open>x || undefined\<close> on a string or \<open>null\<close>.\<close>

definition or_undefined :: "string option \<Rightarrow> string option" where
  "or_undefined x = (case x of None \<Rightarrow> None | Some v \<Rightarrow> (if v = [] then None else Some v))"

text \<open>The updater given to \<open>setUploads\<close> on success (lines 225-229).\<close>

definition prepend :: "UploadItem \<Rightarrow> UploadItem list \<Rightarrow> UploadItem list" where
  "prepend newUpload prev = take MAX_RECENT_UPLOADS (newUpload # prev)"

text \<open>The \<open>catch\<close> block; \<open>err\<close> is \<open>String(error)\<close>.\<close>

definition on_error :: "App \<Rightarrow> string \<Rightarrow> App" where
  "on_error s err = schedule 3000 Reset_all (s\<lparr>state := Error, statusText := err\<rparr>)"

text \<open>
  \<open>processFiles\<close> from the point where the awaited invocation settles, with a rejection
  (\<^const>\<open>Inl\<close>, the text of the error) or a result. \<open>formatBytes\<close> works in floating point
  and is a parameter; \<open>t_id\<close> and \<open>t_ts\<close> are the two readings of \<open>Date.now()\<close>.
\<close>

definition processFiles_settled ::
  "(nat \<Rightarrow> string) \<Rightarrow> App \<Rightarrow> string list \<Rightarrow> int \<Rightarrow> int \<Rightarrow> string + DropResult \<Rightarrow> App" where
  "processFiles_settled formatBytes s paths t_id t_ts outcome =
     (let fileNames = map getFileName paths;
          s' = (case outcome of
                  Inl err \<Rightarrow> on_error s err
                | Inr result \<Rightarrow>
                    (case displayName paths fileNames result of
                       Inl err \<Rightarrow> on_error s err
                     | Inr dn \<Rightarrow>
                         let newUpload =
                               \<lparr>id_str = toString t_id, name = dn,
                                size_str = formatBytes (processed_size result),
                                url = result_url result,
                                localPath = or_undefined (local_path result),
                                r2Key = or_undefined (r2_key result),
                                isDemo = is_demo result, timestamp = t_ts\<rparr>;
                             s1 = save_effect (s\<lparr>uploads := prepend newUpload (uploads s)\<rparr>);
                             s2 = s1\<lparr>state := Success,
                                     statusText := (if is_demo result then ''Saved to Downloads!''
                                                    else ''Copied to clipboard!'')\<rparr>
                         in schedule 10000 Hide_window (schedule 2000 Reset_all s2)))
      in s'\<lparr>isProcessing := False\<rparr>)"

section \<open>Listeners and handlers (lines 272-329, 438)\<close>

definition dropListener :: "App \<Rightarrow> int \<Rightarrow> string list \<Rightarrow> App" where
  "dropListener s now paths = (if length paths > 0 then processFiles s now paths else s)"

definition dragOverListener :: "App \<Rightarrow> App" where
  "dragOverListener s = (if \<not> isProcessing s then s\<lparr>state := Drag_over\<rparr> else s)"

definition dragLeaveListener :: "App \<Rightarrow> App" where
  "dragLeaveListener s = (if \<not> isProcessing s then s\<lparr>state := Idle\<rparr> else s)"

text \<open>\<open>deleteUpload\<close>; \<open>shiftKey\<close> is the modifier of the click.\<close>

definition deleteUpload :: "App \<Rightarrow> bool \<Rightarrow> UploadItem \<Rightarrow> App" where
  "deleteUpload s shiftKey item =
     (let s1 = save_effect (s\<lparr>uploads := filter (\<lambda>u. id_str u \<noteq> id_str item) (uploads s)\<rparr>)
      in case r2Key item of
           Some k \<Rightarrow>
             (if shiftKey \<and> k \<noteq> [] \<and> \<not> isDemo item then s1\<lparr>r2_deletes := r2_deletes s1 @ [k]\<rparr>
              else s1)
         | None \<Rightarrow> s1)"

text \<open>The Clear button, rendered when the history is not empty.\<close>

definition clear :: "App \<Rightarrow> App" where
  "clear s = (if length (uploads s) > 0 then save_effect (s\<lparr>uploads := []\<rparr>) else s)"

fun fire :: "timer \<Rightarrow> App \<Rightarrow> App" where
  "fire Reset_status s = s\<lparr>state := Idle, statusText := []\<rparr>"
| "fire Reset_all s = s\<lparr>state := Idle, statusText := [], currentFileName := []\<rparr>"
| "fire Hide_window s = s"

section \<open>The event loop\<close>

text \<open>
  What the single event loop delivers to the mounted component: a drop notification at a
  reading of the clock, the settling of the oldest pending \<open>process_and_upload\<close>, a
  drag-over or drag-leave notification, the firing of a pending timer, a click on a
  record's delete button, a click on Clear, and the settling of a \<open>delete_from_r2\<close>
  invocation, to which no continuation is attached.
\<close>

datatype event =
    Drop int "string list"
  | Settled int int "string + DropResult"
  | DragOver
  | DragLeave
  | Timeout nat
  | DeleteClick bool UploadItem
  | ClearClick
  | DeleteSettled "string option"

fun step :: "(nat \<Rightarrow> string) \<Rightarrow> App \<Rightarrow> event \<Rightarrow> App" where
  "step formatBytes s (Drop now paths) = dropListener s now paths"
| "step formatBytes s (Settled t_id t_ts outcome) =
     (case inflight s of
        [] \<Rightarrow> s
      | paths # rest \<Rightarrow> processFiles_settled formatBytes (s\<lparr>inflight := rest\<rparr>) paths t_id t_ts outcome)"
| "step formatBytes s DragOver = dragOverListener s"
| "step formatBytes s DragLeave = dragLeaveListener s"
| "step formatBytes s (Timeout k) =
     (if k < length (timers s)
      then fire (snd (timers s ! k)) (s\<lparr>timers := take k (timers s) @ drop (Suc k) (timers s)\<rparr>)
      else s)"
| "step formatBytes s (DeleteClick shiftKey item) = deleteUpload s shiftKey item"
| "step formatBytes s ClearClick = clear s"
| "step formatBytes s (DeleteSettled failure) = s"

definition run :: "(nat \<Rightarrow> string) \<Rightarrow> App \<Rightarrow> event list \<Rightarrow> App" where
  "run formatBytes s evs = foldl (step formatBytes) s evs"

section \<open>The invariant of the event loop\<close>

text \<open>
  What holds of every state the event loop reaches: the guard flag is up exactly while an
  invocation is pending, at most one is; the session shows \<open>processing\<close> only under the
  guard, and under the guard it shows \<open>processing\<close> or (after a timer of an earlier
  session) \<open>idle\<close>; the persisted slot holds the history; a pending batch passed validation.
\<close>

definition loop_invariant :: "App \<Rightarrow> bool" where
  "loop_invariant s \<longleftrightarrow>
     (isProcessing s \<longleftrightarrow> inflight s \<noteq> []) \<and> length (inflight s) \<le> 1 \<and>
     (state s = Processing \<longrightarrow> isProcessing s) \<and>
     (isProcessing s \<longrightarrow> state s = Processing \<or> state s = Idle) \<and>
     storage s = Some (Encoded (uploads s)) \<and>
     (\<forall>paths\<in>set (inflight s). paths \<noteq> [] \<and> valid (validateFiles paths))"

section \<open>Examples and notions of the specification\<close>

text \<open>A record is cloud-backed when it has a storage key and is not local-only.\<close>

definition cloud_backed :: "UploadItem \<Rightarrow> bool" where
  "cloud_backed item = (case r2Key item of Some k \<Rightarrow> k \<noteq> [] \<and> \<not> isDemo item | None \<Rightarrow> False)"

definition example_item :: UploadItem where
  "example_item =
     \<lparr>id_str = ''1700000000000'', name = ''photo.webp'', size_str = ''12.3 KB'',
      url = ''https://cdn.example/photo.webp'', localPath = None, r2Key = Some ''u/photo.webp'',
      isDemo = False, timestamp = 1700000000000\<rparr>"

definition example_result :: DropResult where
  "example_result =
     \<lparr>result_url = ''https://cdn.example/photo.webp'', local_path = None,
      r2_key = Some ''u/photo.webp'', original_size = 20480, processed_size = 12595,
      file_type = ''webp'', is_demo = False\<rparr>"

section \<open>The settings panel (lines 501-592)\<close>






















section \<open>The validator\<close>

lemma split_not_Nil: "split sep s \<noteq> []"
  by (induction s) (auto split: list.splits)

lemma length_split: "Suc 0 < length (split sep s) \<longleftrightarrow> sep \<in> set s"
proof (induction s)
  case Nil
  show ?case by simp
next
  case (Cons c cs)
  show ?case
  proof (cases "c = sep")
    case True
    then show ?thesis using split_not_Nil [of sep cs] by (cases "split sep cs") auto
  next
    case False
    then show ?thesis using Cons split_not_Nil [of sep cs]
      by (cases "split sep cs") auto
  qed
qed

lemma split_no_sep: "sep \<notin> set s \<Longrightarrow> split sep s = [s]"
  by (induction s) auto

lemma takeWhile_no_sep: "sep \<notin> set s \<Longrightarrow> takeWhile (\<lambda>c. c \<noteq> sep) (rev s) = rev s"
  by (rule takeWhile_eq_all_conv [THEN iffD2]) auto

lemma takeWhile_snoc_sep:
  assumes "sep \<in> set s"
  shows "takeWhile (\<lambda>c. c \<noteq> sep) (rev s @ [c]) = takeWhile (\<lambda>c. c \<noteq> sep) (rev s)"
proof -
  have "sep \<in> set (rev s)" using assms by simp
  then show ?thesis by (rule takeWhile_append1) simp
qed

lemma last_split: "last (split sep s) = rev (takeWhile (\<lambda>c. c \<noteq> sep) (rev s))"
proof (induction s)
  case Nil
  show ?case by simp
next
  case (Cons c cs)
  show ?case
  proof (cases "sep \<in> set cs")
    case True
    then have "Suc 0 < length (split sep cs)" by (simp add: length_split)
    then obtain p q qs where sp: "split sep cs = p # q # qs"
      by (cases "split sep cs"; cases "tl (split sep cs)") auto
    have "last (split sep (c # cs)) = last (split sep cs)"
      using sp by (cases "c = sep") auto
    also have "\<dots> = rev (takeWhile (\<lambda>c. c \<noteq> sep) (rev cs))" by (rule Cons.IH)
    also have "\<dots> = rev (takeWhile (\<lambda>c. c \<noteq> sep) (rev (c # cs)))"
      using takeWhile_snoc_sep [OF True, of c] by simp
    finally show ?thesis .
  next
    case False
    note nosep = this
    show ?thesis
    proof (cases "c = sep")
      case True
      have "takeWhile (\<lambda>c. c \<noteq> sep) (rev cs @ [sep]) =
          rev cs @ takeWhile (\<lambda>c. c \<noteq> sep) [sep]"
      proof (rule takeWhile_append2)
        fix x assume "x \<in> set (rev cs)"
        then show "x \<noteq> sep" using nosep by auto
      qed
      then have "takeWhile (\<lambda>c. c \<noteq> sep) (rev cs @ [sep]) = rev cs" by simp
      then show ?thesis using True nosep by (simp add: split_no_sep)
    next
      case False
      then have ns: "sep \<notin> set (c # cs)" using nosep by simp
      have a: "split sep (c # cs) = [c # cs]" using ns by (rule split_no_sep)
      have b: "takeWhile (\<lambda>c. c \<noteq> sep) (rev (c # cs)) = rev (c # cs)"
        using ns by (rule takeWhile_no_sep)
      show ?thesis unfolding a b by simp
    qed
  qed
qed

lemma getExtension_spec:
  "getExtension path = (case spec_extension path of None \<Rightarrow> [] | Some e \<Rightarrow> e)"
  by (simp add: getExtension_def spec_extension_def after_final_dot_def length_split last_split
      Let_def)

lemma offending_iff:
  "offending path \<longleftrightarrow> getExtension path \<noteq> [] \<and> getExtension path \<notin> set ALLOWED_EXTENSIONS"
  by (auto simp: offending_def getExtension_spec split: option.splits)

lemma offending_extension:
  "offending path \<Longrightarrow> spec_extension path = Some (getExtension path)"
  by (auto simp: offending_def getExtension_spec split: option.splits)

lemma check_extensions_find:
  "check_extensions paths =
     (case find offending paths of
        Some path \<Rightarrow> failed (UnsupportedType (getExtension path) (getFileName path))
      | None \<Rightarrow> passed)"
proof (induction paths)
  case Nil
  show ?case by (simp add: passed_def)
next
  case (Cons p ps)
  show ?case
  proof (cases "offending p")
    case True
    have ext: "getExtension p \<noteq> [] \<and> getExtension p \<notin> set ALLOWED_EXTENSIONS"
      using True offending_iff by blast
    have "check_extensions (p # ps) =
        \<lparr>valid = False,
         error = Some (''Unsupported file type: .'' @ getExtension p @ '' ('' @ getFileName p @ '')'')\<rparr>"
      using ext by (simp add: Let_def del: append.simps)
    also have "\<dots> = failed (UnsupportedType (getExtension p) (getFileName p))"
      by (simp add: failed_def del: append.simps)
    finally show ?thesis using True by simp
  next
    case False
    then have "\<not> (getExtension p \<noteq> [] \<and> getExtension p \<notin> set ALLOWED_EXTENSIONS)"
      using offending_iff by blast
    then have "check_extensions (p # ps) = check_extensions ps"
      by (auto simp: Let_def)
    then show ?thesis using Cons False by simp
  qed
qed

lemma find_offending:
  "find offending paths = Some path \<Longrightarrow> spec_extension path = Some (getExtension path)"
proof -
  assume "find offending paths = Some path"
  then have "offending path" by (auto simp: find_Some_iff)
  then show ?thesis by (rule offending_extension)
qed

text \<open>
  C2. \<open>validateFiles\<close> applies the rules of section 4.1 in their order: the empty batch is
  rejected as EmptyBatch; a batch of more than 50 paths as TooManyFiles, whatever it holds;
  otherwise the first path whose extension (the substring after the final dot, lower-cased;
  none for a path without a dot) is non-empty and outside the allow-list is rejected as
  UnsupportedType with that extension and that file's name; and when no path offends the
  batch is valid. The result is a function of the batch alone.
\<close>

theorem validateFiles_rules:
  "validateFiles paths =
     (case spec_validate paths of Some e \<Rightarrow> failed e | None \<Rightarrow> passed)"
proof (cases "paths = [] \<or> length paths > 50")
  case True
  have m: "toString (int MAX_FILES) = toString 50" by (simp add: MAX_FILES_def)
  show ?thesis using True
    by (auto simp: validateFiles_def spec_validate_def m failed_def MAX_FILES_def)
next
  case False
  then have v: "validateFiles paths = check_extensions paths"
    by (simp add: validateFiles_def MAX_FILES_def)
  show ?thesis
  proof (cases "find offending paths")
    case None
    then show ?thesis using False v by (simp add: spec_validate_def check_extensions_find)
  next
    case (Some path)
    then have "spec_validate paths = Some (UnsupportedType (getExtension path) (getFileName path))"
      using False find_offending [OF Some] by (simp add: spec_validate_def)
    then show ?thesis using Some v by (simp add: check_extensions_find)
  qed
qed

theorem validateFiles_rules_witness:
  "validateFiles [] = failed EmptyBatch \<and>
   validateFiles (replicate 51 ''a.png'') = failed (TooManyFiles 50) \<and>
   validateFiles [''/home/u/photo.JPG'', ''/tmp/malware.exe'', ''x.bad''] =
     failed (UnsupportedType ''exe'' ''malware.exe'') \<and>
   validateFiles [''a.png'', ''Makefile'', ''/srv/notes.''] = passed"
proof -
  have s1: "spec_validate [] = Some EmptyBatch"
    by (simp add: spec_validate_def)
  have s2: "spec_validate (replicate 51 ''a.png'') = Some (TooManyFiles 50)"
    by (simp add: spec_validate_def)
  have s3: "spec_validate [''/home/u/photo.JPG'', ''/tmp/malware.exe'', ''x.bad''] =
      Some (UnsupportedType ''exe'' ''malware.exe'')"
    by code_simp
  have s4: "spec_validate [''a.png'', ''Makefile'', ''/srv/notes.''] = None"
    by code_simp
  show ?thesis
    using validateFiles_rules [of "[]"] validateFiles_rules [of "replicate 51 ''a.png''"]
      validateFiles_rules [of "[''/home/u/photo.JPG'', ''/tmp/malware.exe'', ''x.bad'']"]
      validateFiles_rules [of "[''a.png'', ''Makefile'', ''/srv/notes.'']"]
    unfolding s1 s2 s3 s4 by simp
qed

section \<open>Reachable states\<close>

lemma loop_invariant_mount: "loop_invariant (mount saved)"
  by (auto simp: loop_invariant_def mount_def save_effect_def load_effect_def initial_def
      split: option.splits persisted.splits)

lemma loop_invariant_processFiles: "loop_invariant s \<Longrightarrow> loop_invariant (processFiles s now paths)"
  by (auto simp: loop_invariant_def processFiles_def Let_def schedule_def)

lemma loop_invariant_dropListener: "loop_invariant s \<Longrightarrow> loop_invariant (dropListener s now paths)"
  by (simp add: dropListener_def loop_invariant_processFiles)

lemma settled_fields:
  "isProcessing (processFiles_settled fb s paths t1 t2 outcome) = False"
  "inflight (processFiles_settled fb s paths t1 t2 outcome) = inflight s"
  "state (processFiles_settled fb s paths t1 t2 outcome) = Success \<or>
   state (processFiles_settled fb s paths t1 t2 outcome) = Error"
  "storage s = Some (Encoded (uploads s)) \<Longrightarrow>
   storage (processFiles_settled fb s paths t1 t2 outcome) =
     Some (Encoded (uploads (processFiles_settled fb s paths t1 t2 outcome)))"
  by (auto simp: processFiles_settled_def Let_def on_error_def schedule_def save_effect_def
      split: sum.splits)

lemma loop_invariant_settled:
  assumes "loop_invariant s" shows "loop_invariant (step fb s (Settled t1 t2 outcome))"
proof (cases "inflight s")
  case Nil
  then show ?thesis using assms by simp
next
  case (Cons paths rest)
  then have rest: "rest = []" using assms by (simp add: loop_invariant_def)
  let ?s' = "processFiles_settled fb (s\<lparr>inflight := rest\<rparr>) paths t1 t2 outcome"
  have "storage (s\<lparr>inflight := rest\<rparr>) = Some (Encoded (uploads (s\<lparr>inflight := rest\<rparr>)))"
    using assms by (simp add: loop_invariant_def)
  then have st: "storage ?s' = Some (Encoded (uploads ?s'))" by (rule settled_fields(4))
  have "loop_invariant ?s'"
    unfolding loop_invariant_def using settled_fields(1) [of fb "s\<lparr>inflight := rest\<rparr>" paths t1 t2 outcome]
      settled_fields(2) [of fb "s\<lparr>inflight := rest\<rparr>" paths t1 t2 outcome]
      settled_fields(3) [of fb "s\<lparr>inflight := rest\<rparr>" paths t1 t2 outcome] st rest
    by auto
  then show ?thesis using Cons by simp
qed

lemma loop_invariant_fire: "loop_invariant s \<Longrightarrow> loop_invariant (fire t (s\<lparr>timers := ts\<rparr>))"
  by (cases t) (auto simp: loop_invariant_def)

lemma loop_invariant_step: "loop_invariant s \<Longrightarrow> loop_invariant (step fb s e)"
proof (cases e)
  case (Drop now paths)
  assume "loop_invariant s" then show ?thesis using Drop by (simp add: loop_invariant_dropListener)
next
  case (Settled t1 t2 outcome)
  assume "loop_invariant s" then show ?thesis using Settled loop_invariant_settled by simp
next
  case DragOver
  assume "loop_invariant s" then show ?thesis using DragOver by (auto simp: loop_invariant_def dragOverListener_def)
next
  case DragLeave
  assume "loop_invariant s" then show ?thesis using DragLeave by (auto simp: loop_invariant_def dragLeaveListener_def)
next
  case (Timeout k)
  assume "loop_invariant s" then show ?thesis using Timeout by (simp add: loop_invariant_fire)
next
  case (DeleteClick shiftKey item)
  assume "loop_invariant s" then show ?thesis using DeleteClick
    by (auto simp: loop_invariant_def deleteUpload_def save_effect_def Let_def split: option.splits)
next
  case ClearClick
  assume "loop_invariant s" then show ?thesis using ClearClick by (auto simp: loop_invariant_def clear_def save_effect_def)
next
  case (DeleteSettled failure)
  assume "loop_invariant s" then show ?thesis using DeleteSettled by simp
qed

lemma loop_invariant_run: "loop_invariant s \<Longrightarrow> loop_invariant (run fb s evs)"
  unfolding run_def by (induction evs arbitrary: s) (simp_all add: loop_invariant_step)

lemma loop_invariant_reachable: "loop_invariant (run fb (mount saved) evs)"
  by (rule loop_invariant_run) (rule loop_invariant_mount)


text \<open>
  C1. Single-flight. In every state the event loop reaches from mounting, at most one
  \<open>process_and_upload\<close> invocation is pending, and one is pending exactly while the guard
  flag is up. While the flag is up, a drop notification issues no invocation: it leaves
  the state as it is, but for the debounce timestamp when it got past the debounce. The
  flag is tested and raised inside \<open>processFiles\<close> before its \<open>await\<close>, in one step of
  the loop.
\<close>

theorem single_flight:
  "length (inflight (run fb (mount saved) evs)) \<le> 1 \<and>
   (isProcessing (run fb (mount saved) evs) \<longleftrightarrow> length (inflight (run fb (mount saved) evs)) = 1) \<and>
   (isProcessing s \<longrightarrow>
      inflight (step fb s (Drop now paths)) = inflight s \<and>
      (step fb s (Drop now paths) = s \<or> step fb s (Drop now paths) = s\<lparr>lastDropTime := now\<rparr>))"
proof -
  let ?r = "run fb (mount saved) evs"
  have i: "loop_invariant ?r" by (rule loop_invariant_reachable)
  have a: "length (inflight ?r) \<le> 1" using i by (simp add: loop_invariant_def)
  have b: "isProcessing ?r \<longleftrightarrow> length (inflight ?r) = 1"
    using i by (cases "inflight ?r") (auto simp: loop_invariant_def)
  have c: "isProcessing s \<longrightarrow>
      inflight (step fb s (Drop now paths)) = inflight s \<and>
      (step fb s (Drop now paths) = s \<or> step fb s (Drop now paths) = s\<lparr>lastDropTime := now\<rparr>)"
    by (simp add: dropListener_def processFiles_def Let_def)
  show ?thesis using a b c by blast
qed

theorem single_flight_witness:
  "isProcessing (run (\<lambda>n. []) (mount None) [Drop 1000 [''a.png'']]) \<and>
   inflight (step (\<lambda>n. []) (run (\<lambda>n. []) (mount None) [Drop 1000 [''a.png'']]) (Drop 2000 [''b.png'']))
     = [[''a.png'']] \<and>
   length (inflight (run (\<lambda>n. []) (mount None) [Drop 1000 [''a.png''], Drop 2000 [''b.png'']])) \<le> 1"
proof -
  have p: "isProcessing (run (\<lambda>n. []) (mount None) [Drop 1000 [''a.png'']])"
    by code_simp
  have q: "inflight (run (\<lambda>n. []) (mount None) [Drop 1000 [''a.png'']]) = [[''a.png'']]"
    by code_simp
  show ?thesis
    using p q
      single_flight [of "\<lambda>n. []" None "[Drop 1000 [''a.png''], Drop 2000 [''b.png'']]"
        "run (\<lambda>n. []) (mount None) [Drop 1000 [''a.png'']]" 2000 "[''b.png'']"]
    by simp
qed

text \<open>
  C5. The guard flag is down after the invocation settles, whether it resolved or was
  rejected and whatever the result, so in every reachable state the flag is down after a
  settling; and it is up, with the invocation issued, in the very step that accepts a
  batch (past the debounce, guard down, batch non-empty and valid).
\<close>

theorem guard_released:
  "\<not> isProcessing (processFiles_settled fb s paths t_id t_ts outcome) \<and>
   \<not> isProcessing (step fb (run fb (mount saved) evs) (Settled t_id t_ts outcome)) \<and>
   (\<not> now - lastDropTime s < DEBOUNCE_MS \<and> \<not> isProcessing s \<and> paths \<noteq> [] \<and>
    valid (validateFiles paths) \<longrightarrow>
      isProcessing (processFiles s now paths) \<and>
      inflight (processFiles s now paths) = inflight s @ [paths])"
proof -
  let ?r = "run fb (mount saved) evs"
  have a: "\<not> isProcessing (processFiles_settled fb s paths t_id t_ts outcome)"
    by (simp add: settled_fields(1))
  have b: "\<not> isProcessing (step fb ?r (Settled t_id t_ts outcome))"
  proof (cases "inflight ?r")
    case Nil
    then show ?thesis using loop_invariant_reachable [of fb saved evs] by (simp add: loop_invariant_def)
  next
    case (Cons p ps)
    then show ?thesis by (simp add: settled_fields(1))
  qed
  have c: "\<not> now - lastDropTime s < DEBOUNCE_MS \<and> \<not> isProcessing s \<and> paths \<noteq> [] \<and>
    valid (validateFiles paths) \<longrightarrow>
      isProcessing (processFiles s now paths) \<and>
      inflight (processFiles s now paths) = inflight s @ [paths]"
    by (simp add: processFiles_def Let_def)
  show ?thesis using a b c by blast
qed


theorem guard_released_witness:
  "\<not> 1000 - lastDropTime (mount None) < DEBOUNCE_MS \<and> \<not> isProcessing (mount None) \<and>
   valid (validateFiles [''a.png'']) \<and>
   isProcessing (processFiles (mount None) 1000 [''a.png'']) \<and>
   inflight (processFiles (mount None) 1000 [''a.png'']) = [[''a.png'']] \<and>
   \<not> isProcessing (step (\<lambda>n. []) (run (\<lambda>n. []) (mount None) [Drop 1000 [''a.png'']])
        (Settled 5000 5000 (Inl ''network down'')))"
proof -
  have h: "\<not> 1000 - lastDropTime (mount None) < DEBOUNCE_MS \<and> \<not> isProcessing (mount None) \<and>
      [''a.png''] \<noteq> [] \<and> valid (validateFiles [''a.png''])"
    by code_simp
  have i: "inflight (mount None) = []" by code_simp
  show ?thesis
    using h i
      guard_released [of "\<lambda>n. []" "mount None" "[''a.png'']" 5000 5000 "Inl ''network down''" None
        "[Drop 1000 [''a.png'']]" 1000]
    by simp
qed


section \<open>The debounce window\<close>

lemma lastDropTime_processFiles: "lastDropTime s \<le> lastDropTime (processFiles s now paths)"
  by (simp add: processFiles_def Let_def schedule_def DEBOUNCE_MS_def)

lemma lastDropTime_settled:
  "lastDropTime (processFiles_settled fb s paths t1 t2 outcome) = lastDropTime s"
  by (simp add: processFiles_settled_def Let_def on_error_def schedule_def save_effect_def
      split: sum.splits)

lemma lastDropTime_fire: "lastDropTime (fire t s) = lastDropTime s"
  by (cases t) simp_all

lemma lastDropTime_step: "lastDropTime s \<le> lastDropTime (step fb s e)"
proof (cases e)
  case (Drop now paths)
  then show ?thesis by (simp add: dropListener_def lastDropTime_processFiles)
next
  case (Settled t1 t2 outcome)
  then show ?thesis by (simp add: lastDropTime_settled split: list.splits)
next
  case (Timeout k)
  then show ?thesis by (simp add: lastDropTime_fire)
next
  case (DeleteClick shiftKey item)
  then show ?thesis by (simp add: deleteUpload_def save_effect_def Let_def split: option.splits)
qed (simp_all add: dragOverListener_def dragLeaveListener_def clear_def save_effect_def)

lemma lastDropTime_run: "lastDropTime s \<le> lastDropTime (run fb s evs)"
  unfolding run_def
proof (induction evs arbitrary: s)
  case Nil
  show ?case by simp
next
  case (Cons e evs)
  have "lastDropTime s \<le> lastDropTime (step fb s e)" by (rule lastDropTime_step)
  also have "\<dots> \<le> lastDropTime (foldl (step fb) (step fb s e) evs)" by (rule Cons.IH)
  finally show ?case by simp
qed

lemma lastDropTime_accepted:
  "paths \<noteq> [] \<Longrightarrow> \<not> now - lastDropTime s < DEBOUNCE_MS \<Longrightarrow>
   lastDropTime (step fb s (Drop now paths)) = now"
  by (simp add: dropListener_def processFiles_def Let_def schedule_def)

text \<open>
  C3 (as the code has it). A drop notification with a non-empty path list that arrives
  less than 300 ms after the last drop that got past the debounce is discarded and changes
  nothing, so no error is shown. Of two drop notifications whose clock readings are less
  than 300 ms apart, at most one gets past the debounce: when the earlier one got past it,
  the later one is discarded, whatever happened in between.
\<close>

theorem debounce_window:
  "(paths \<noteq> [] \<and> now - lastDropTime s < DEBOUNCE_MS \<longrightarrow> step fb s (Drop now paths) = s) \<and>
   (paths \<noteq> [] \<and> \<not> now - lastDropTime s < DEBOUNCE_MS \<and> later - now < DEBOUNCE_MS \<longrightarrow>
      step fb (run fb (step fb s (Drop now paths)) evs) (Drop later paths') =
        run fb (step fb s (Drop now paths)) evs)"
proof -
  have a: "now - lastDropTime s < DEBOUNCE_MS \<longrightarrow> step fb s (Drop now paths) = s"
    by (simp add: dropListener_def processFiles_def)
  have b: "step fb (run fb (step fb s (Drop now paths)) evs) (Drop later paths') =
        run fb (step fb s (Drop now paths)) evs"
    if h: "paths \<noteq> []" "\<not> now - lastDropTime s < DEBOUNCE_MS" "later - now < DEBOUNCE_MS"
  proof -
    let ?r = "run fb (step fb s (Drop now paths)) evs"
    have "now = lastDropTime (step fb s (Drop now paths))"
      using lastDropTime_accepted [OF h(1) h(2)] by simp
    also have "\<dots> \<le> lastDropTime ?r" by (rule lastDropTime_run)
    finally have "later - lastDropTime ?r < DEBOUNCE_MS" using h(3) by simp
    then show ?thesis by (simp add: dropListener_def processFiles_def)
  qed
  show ?thesis using a b by blast
qed

text \<open>
  C3 as stated fails: after an upload dropped at 1000 and completed at 1100, the drops at
  1200 and 1400 are 200 ms apart; the first of the two is discarded by the debounce and
  the second is forwarded and starts an upload.
\<close>

theorem debounce_second_forwarded:
  "step (\<lambda>n. []) (run (\<lambda>n. []) (mount None)
       [Drop 1000 [''a.png''], Settled 1100 1100 (Inr example_result)]) (Drop 1200 [''b.png''])
     = run (\<lambda>n. []) (mount None) [Drop 1000 [''a.png''], Settled 1100 1100 (Inr example_result)] \<and>
   inflight (run (\<lambda>n. []) (mount None)
      [Drop 1000 [''a.png''], Settled 1100 1100 (Inr example_result)]) = [] \<and>
   (1400::int) - 1200 < DEBOUNCE_MS \<and>
   inflight (run (\<lambda>n. []) (mount None)
      [Drop 1000 [''a.png''], Settled 1100 1100 (Inr example_result), Drop 1200 [''b.png''],
       Drop 1400 [''c.png'']]) = [[''c.png'']]"
  by code_simp

theorem debounce_window_witness:
  "\<not> 1000 - lastDropTime (mount None) < DEBOUNCE_MS \<and> (1200::int) - 1000 < DEBOUNCE_MS \<and>
   step (\<lambda>n. []) (run (\<lambda>n. []) (step (\<lambda>n. []) (mount None) (Drop 1000 [''a.png'']))
       [Settled 1100 1101 (Inl ''offline'')]) (Drop 1200 [''b.png'']) =
     run (\<lambda>n. []) (step (\<lambda>n. []) (mount None) (Drop 1000 [''a.png''])) [Settled 1100 1101 (Inl ''offline'')] \<and>
   1200 - lastDropTime (step (\<lambda>n. []) (mount None) (Drop 1000 [''a.png''])) < DEBOUNCE_MS \<and>
   step (\<lambda>n. []) (step (\<lambda>n. []) (mount None) (Drop 1000 [''a.png''])) (Drop 1200 [''b.png'']) =
     step (\<lambda>n. []) (mount None) (Drop 1000 [''a.png''])"
proof -
  have h: "[''a.png''] \<noteq> [] \<and> \<not> 1000 - lastDropTime (mount None) < DEBOUNCE_MS \<and>
      (1200::int) - 1000 < DEBOUNCE_MS"
    by code_simp
  have g: "[''b.png''] \<noteq> [] \<and>
      1200 - lastDropTime (step (\<lambda>n. []) (mount None) (Drop 1000 [''a.png''])) < DEBOUNCE_MS"
    by code_simp
  show ?thesis
    using h g
      debounce_window [of "[''a.png'']" 1000 "mount None" "\<lambda>n. []" 1200
        "[Settled 1100 1101 (Inl ''offline'')]" "[''b.png'']"]
      debounce_window [of "[''b.png'']" 1200 "step (\<lambda>n. []) (mount None) (Drop 1000 [''a.png''])"
        "\<lambda>n. []" 1200 "[]" "[]"]
    by simp
qed


section \<open>The bounded history\<close>














section \<open>The display name\<close>






section \<open>Removing a record\<close>

text \<open>
  C8. \<open>deleteUpload\<close> leaves the history without the record (every record of its id is
  filtered out) and the persisted slot holding that history. It issues one
  \<open>delete_from_r2\<close> with the record's key when the click is a shift-click and the record
  is cloud-backed, and none otherwise. The history is already updated in the step that
  issues the call, and the settling of the call, failed or not, changes nothing.
\<close>

theorem remove_record:
  "uploads (deleteUpload s shiftKey item) = filter (\<lambda>u. id_str u \<noteq> id_str item) (uploads s) \<and>
   item \<notin> set (uploads (deleteUpload s shiftKey item)) \<and>
   storage (deleteUpload s shiftKey item) = Some (Encoded (uploads (deleteUpload s shiftKey item))) \<and>
   (shiftKey \<and> cloud_backed item \<longrightarrow>
      (\<exists>k. r2Key item = Some k \<and> r2_deletes (deleteUpload s shiftKey item) = r2_deletes s @ [k])) \<and>
   (\<not> (shiftKey \<and> cloud_backed item) \<longrightarrow>
      r2_deletes (deleteUpload s shiftKey item) = r2_deletes s) \<and>
   step fb (deleteUpload s shiftKey item) (DeleteSettled failure) = deleteUpload s shiftKey item"
proof -
  let ?s' = "deleteUpload s shiftKey item"
  have u: "uploads ?s' = filter (\<lambda>u. id_str u \<noteq> id_str item) (uploads s)"
    by (simp add: deleteUpload_def save_effect_def Let_def split: option.splits)
  have n: "item \<notin> set (uploads ?s')"
    unfolding u by simp
  have p: "storage ?s' = Some (Encoded (uploads ?s'))"
    by (simp add: deleteUpload_def save_effect_def Let_def split: option.splits)
  have d: "shiftKey \<and> cloud_backed item \<longrightarrow>
      (\<exists>k. r2Key item = Some k \<and> r2_deletes ?s' = r2_deletes s @ [k])"
    by (auto simp: deleteUpload_def save_effect_def Let_def cloud_backed_def split: option.splits)
  have k: "\<not> (shiftKey \<and> cloud_backed item) \<longrightarrow> r2_deletes ?s' = r2_deletes s"
    by (auto simp: deleteUpload_def save_effect_def Let_def cloud_backed_def split: option.splits)
  have f: "step fb ?s' (DeleteSettled failure) = ?s'"
    by simp
  show ?thesis using u n p d k f by blast
qed

theorem remove_record_witness:
  "cloud_backed example_item \<and>
   r2_deletes (deleteUpload (mount (Some (Encoded [example_item]))) True example_item) = [''u/photo.webp''] \<and>
   uploads (deleteUpload (mount (Some (Encoded [example_item]))) True example_item) = [] \<and>
   storage (deleteUpload (mount (Some (Encoded [example_item]))) True example_item) = Some (Encoded []) \<and>
   r2_deletes (deleteUpload (mount (Some (Encoded [example_item]))) False example_item) = [] \<and>
   step (\<lambda>n. []) (deleteUpload (mount (Some (Encoded [example_item]))) True example_item)
      (DeleteSettled (Some ''AccessDenied'')) =
     deleteUpload (mount (Some (Encoded [example_item]))) True example_item"
proof -
  let ?s = "mount (Some (Encoded [example_item]))"
  have c: "cloud_backed example_item" by code_simp
  have k: "r2Key example_item = Some ''u/photo.webp''" by code_simp
  have d: "r2_deletes ?s = []" by code_simp
  have u: "filter (\<lambda>u. id_str u \<noteq> id_str example_item) (uploads ?s) = []" by code_simp
  show ?thesis
    using c k d u remove_record [of ?s True example_item "\<lambda>n. []" "Some ''AccessDenied''"]
      remove_record [of ?s False example_item "\<lambda>n. []" None]
    by simp
qed

section \<open>Loading the history\<close>





section \<open>Credentials\<close>









end
